theory Spec2Isabelle
  imports Main "HOL-Library.Product_Lexorder"
begin

section \<open>Python strings\<close>

text \<open>
  A Python \<open>str\<close> is a sequence of Unicode code points. Isabelle's \<open>char\<close> is a byte,
  so a string is modelled as a list of code points (natural numbers); \<open>U+FEFF\<close>,
  \<open>U+00FC\<close> and the Unicode white space and digits of the source's \<open>strip\<close>,
  \<open>\s\<close>, \<open>\d\<close> and \<open>int\<close> are then single elements, as they are in Python.
\<close>

type_synonym codepoint = nat
type_synonym ustring = "codepoint list"

definition ustr :: "string \<Rightarrow> ustring" where
  "ustr s = map of_char s"

text \<open>\<open>str.isspace\<close> of one character, also the class \<open>\s\<close> of \<open>re\<close> on a \<open>str\<close>
  pattern and the characters removed by \<open>str.strip()\<close>: the code points CPython's
  \<open>Py_UNICODE_ISSPACE\<close> accepts.\<close>

definition isspace :: "codepoint \<Rightarrow> bool" where
  "isspace c = (c \<in> set [9, 10, 11, 12, 13, 28, 29, 30, 31, 32, 133, 160, 5760,
     8192, 8193, 8194, 8195, 8196, 8197, 8198, 8199, 8200, 8201, 8202,
     8232, 8233, 8239, 8287, 12288])"

text \<open>The decimal digits of Unicode (category Nd, Unicode 14.0 as shipped with
  CPython 3.11) come in blocks of ten consecutive code points, digit zero first;
  \<open>nd_zeros\<close> lists the zero of every block.\<close>

definition nd_zeros :: "codepoint list" where
  "nd_zeros = [48, 1632, 1776, 1984, 2406, 2534, 2662, 2790, 2918, 3046, 3174, 3302,
     3430, 3558, 3664, 3792, 3872, 4160, 4240, 6112, 6160, 6470, 6608, 6784, 6800, 6992,
     7088, 7232, 7248, 42528, 43216, 43264, 43472, 43504, 43600, 44016, 65296, 66720,
     68912, 69734, 69872, 69942, 70096, 70384, 70736, 70864, 71248, 71360, 71472, 71904,
     72016, 72784, 73040, 73120, 92768, 92864, 93008, 120782, 120792, 120802, 120812,
     120822, 123200, 123632, 125264, 130032]"

text \<open>The value of a decimal digit (\<open>Py_UNICODE_TODECIMAL\<close>), \<open>None\<close> for any other
  character; \<open>\d\<close> matches exactly the characters that have one.\<close>

definition decimal :: "codepoint \<Rightarrow> nat option" where
  "decimal c = (case filter (\<lambda>z. z \<le> c \<and> c < z + 10) nd_zeros of
                  [] \<Rightarrow> None
                | z # _ \<Rightarrow> Some (c - z))"

definition isdecimal :: "codepoint \<Rightarrow> bool" where
  "isdecimal c = (decimal c \<noteq> None)"

definition lstrip :: "ustring \<Rightarrow> ustring" where
  "lstrip s = dropWhile isspace s"

definition rstrip :: "ustring \<Rightarrow> ustring" where
  "rstrip s = rev (dropWhile isspace (rev s))"

definition strip :: "ustring \<Rightarrow> ustring" where
  "strip s = rstrip (lstrip s)"

text \<open>\<open>s.lstrip(chars)\<close>: leading characters that occur in \<open>chars\<close> are removed.\<close>

definition lstrip_chars :: "ustring \<Rightarrow> ustring \<Rightarrow> ustring" where
  "lstrip_chars chars s = dropWhile (\<lambda>c. c \<in> set chars) s"

definition startswith :: "ustring \<Rightarrow> ustring \<Rightarrow> bool" where
  "startswith s p = (take (length p) s = p)"

text \<open>\<open>s.split(sep, maxsplit)\<close> for a one-character separator: \<open>py_split sep None\<close>
  splits at every separator, \<open>py_split sep (Some k)\<close> at the first \<open>k\<close> only. The
  result is never empty.\<close>

fun py_split_from :: "codepoint \<Rightarrow> nat option \<Rightarrow> ustring \<Rightarrow> ustring \<Rightarrow> ustring list" where
  "py_split_from sep k cur [] = [cur]"
| "py_split_from sep k cur (c # cs) =
     (if c = sep \<and> k \<noteq> Some 0
      then cur # py_split_from sep (map_option (\<lambda>n. n - 1) k) [] cs
      else py_split_from sep k (cur @ [c]) cs)"

definition py_split :: "codepoint \<Rightarrow> nat option \<Rightarrow> ustring \<Rightarrow> ustring list" where
  "py_split sep k s = py_split_from sep k [] s"

text \<open>\<open>sep.join(xs)\<close> for a one-character separator.\<close>

fun py_join :: "codepoint \<Rightarrow> ustring list \<Rightarrow> ustring" where
  "py_join sep [] = []"
| "py_join sep [x] = x"
| "py_join sep (x # y # ys) = x @ sep # py_join sep (y # ys)"

text \<open>\<open>s.zfill(width)\<close>: zeros are put in front, after a leading sign, until the string
  has \<open>width\<close> characters; a string that long already is returned as it is.\<close>

definition zfill :: "nat \<Rightarrow> ustring \<Rightarrow> ustring" where
  "zfill width s =
     (if width \<le> length s then s
      else (case s of
              c # r \<Rightarrow> if c = 43 \<or> c = 45 then c # replicate (width - length s) 48 @ r
                        else replicate (width - length s) 48 @ s
            | [] \<Rightarrow> replicate width 48))"

text \<open>\<open>str.splitlines()\<close>: a line ends at \<open>\n\<close>, \<open>\r\<close>, \<open>\r\n\<close>, \<open>\v\<close>, \<open>\f\<close>,
  \<open>\x1c\<close>, \<open>\x1d\<close>, \<open>\x1e\<close>, \<open>\x85\<close>, \<open>U+2028\<close> or \<open>U+2029\<close>; the line ends are
  not kept, and no empty last line is returned.\<close>

definition is_linebreak :: "codepoint \<Rightarrow> bool" where
  "is_linebreak c = (c \<in> set [10, 11, 12, 13, 28, 29, 30, 133, 8232, 8233])"

fun splitlines_from :: "ustring \<Rightarrow> ustring \<Rightarrow> ustring list" where
  "splitlines_from cur [] = (if cur = [] then [] else [cur])"
| "splitlines_from cur [c] = (if is_linebreak c then [cur] else [cur @ [c]])"
| "splitlines_from cur (c # d # cs) =
     (if c = 13 \<and> d = 10 then cur # splitlines_from [] cs
      else if is_linebreak c then cur # splitlines_from [] (d # cs)
      else splitlines_from (cur @ [c]) (d # cs))"

definition splitlines :: "ustring \<Rightarrow> ustring list" where
  "splitlines s = splitlines_from [] s"

section \<open>The Kindle cleaner: timestamps\<close>

datatype error = ValueError | KeyError | FileNotFoundError | OverflowError | HTTPError

text \<open>The table \<open>months\<close> of \<open>normalize_timestamp\<close>; the second letter of the
  third month name is a-umlaut, code point 228.\<close>

definition months :: "(ustring \<times> ustring) list" where
  "months =
     [(ustr ''Januar'', ustr ''01''),
      (ustr ''Februar'', ustr ''02''),
      (ustr ''M'' @ [228] @ ustr ''rz'', ustr ''03''),
      (ustr ''April'', ustr ''04''),
      (ustr ''Mai'', ustr ''05''),
      (ustr ''Juni'', ustr ''06''),
      (ustr ''Juli'', ustr ''07''),
      (ustr ''August'', ustr ''08''),
      (ustr ''September'', ustr ''09''),
      (ustr ''Oktober'', ustr ''10''),
      (ustr ''November'', ustr ''11''),
      (ustr ''Dezember'', ustr ''12'')]"

text \<open>
  \<open>normalize_timestamp\<close>. Each tuple assignment of the source raises \<open>ValueError\<close>
  when the split has another number of parts than the targets; the table lookup raises
  \<open>KeyError\<close>. The lookup is evaluated inside the f-string, after both splits.
\<close>

definition normalize_timestamp :: "ustring \<Rightarrow> error + ustring" where
  "normalize_timestamp raw =
     (case py_split 44 (Some 1) raw of
        [_, rest0] \<Rightarrow>
          (let rest = strip rest0 in
           case py_split 32 (Some 2) rest of
             [day, month, year_time] \<Rightarrow>
               (case py_split 32 (Some 1) year_time of
                  [year, time] \<Rightarrow>
                    (case map_of months month of
                       Some mm \<Rightarrow> Inr (year @ ustr ''-'' @ mm @ ustr ''-'' @ zfill 2 day
                                        @ ustr ''T'' @ time)
                     | None \<Rightarrow> Inl KeyError)
                | _ \<Rightarrow> Inl ValueError)
           | _ \<Rightarrow> Inl ValueError)
      | _ \<Rightarrow> Inl ValueError)"

section \<open>The Kindle cleaner: regular expressions and the page key\<close>

text \<open>\<open>pattern.search(s)\<close>: the match is tried at every position of \<open>s\<close>, from the
  left, and the first success is returned. \<open>m\<close> is the match at the start of its
  argument; it gives the text of group 1.\<close>

fun re_search :: "(ustring \<Rightarrow> ustring option) \<Rightarrow> ustring \<Rightarrow> ustring option" where
  "re_search m [] = m []"
| "re_search m (c # cs) = (case m (c # cs) of Some g \<Rightarrow> Some g | None \<Rightarrow> re_search m cs)"

text \<open>\<open>PAGE_PATTERN = Seite\s+([\d\-]+)\<close>. Both repetitions are greedy, and no
  character is white space as well as a digit or a dash, so giving back white space
  never helps: group 1 is the longest run of digits and dashes after the longest run
  of white space, and both runs must be non-empty.\<close>

definition PAGE_PATTERN :: "ustring \<Rightarrow> ustring option" where
  "PAGE_PATTERN s =
     (if startswith s (ustr ''Seite'')
      then (let r = drop 5 s;
                g = takeWhile (\<lambda>c. isdecimal c \<or> c = 45) (dropWhile isspace r)
            in if takeWhile isspace r \<noteq> [] \<and> g \<noteq> [] then Some g else None)
      else None)"

text \<open>\<open>TIMESTAMP_PATTERN = Hinzugef\<close>u-umlaut\<open>gt am (.+)$\<close>. The dot matches every
  character but \<open>\n\<close>; \<open>$\<close> matches at the end of the string and before a
  \<open>\n\<close> that ends it.\<close>

definition TIMESTAMP_PREFIX :: ustring where
  "TIMESTAMP_PREFIX = ustr ''Hinzugef'' @ [252] @ ustr ''gt am ''"

definition TIMESTAMP_PATTERN :: "ustring \<Rightarrow> ustring option" where
  "TIMESTAMP_PATTERN s =
     (if startswith s TIMESTAMP_PREFIX
      then (let r = drop (length TIMESTAMP_PREFIX) s;
                g = takeWhile (\<lambda>c. c \<noteq> 10) r;
                t = dropWhile (\<lambda>c. c \<noteq> 10) r
            in if g \<noteq> [] \<and> (t = [] \<or> t = [10]) then Some g else None)
      else None)"

definition META_PREFIX :: ustring where
  "META_PREFIX = ustr ''- Deine Markierung''"

definition SEPARATOR :: ustring where
  "SEPARATOR = ustr ''==========''"

text \<open>
  \<open>int(s)\<close> on a string, base 10, as CPython 3.11 does it. Every character from 127
  on is first replaced: white space by a blank, a decimal digit by its ASCII digit,
  and any other character makes the literal invalid. Then: white space of C
  (\<open>Py_ISSPACE\<close>) around, one optional sign, digits with single underscores between
  them, and at most 4300 digits (the default of \<open>sys.set_int_max_str_digits\<close>).
  \<open>None\<close> is \<open>ValueError\<close>.
\<close>

definition c_isspace :: "codepoint \<Rightarrow> bool" where
  "c_isspace c = (c \<in> set [9, 10, 11, 12, 13, 32])"

definition to_ascii :: "codepoint \<Rightarrow> codepoint option" where
  "to_ascii c =
     (if c < 127 then Some c
      else if isspace c then Some 32
      else map_option (\<lambda>d. 48 + d) (decimal c))"

fun underscores_ok :: "ustring \<Rightarrow> bool" where
  "underscores_ok [] = True"
| "underscores_ok [c] = (c \<noteq> 95)"
| "underscores_ok (c # d # cs) = (\<not> (c = 95 \<and> d = 95) \<and> underscores_ok (d # cs))"

definition int_max_str_digits :: nat where
  "int_max_str_digits = 4300"

definition py_int :: "ustring \<Rightarrow> int option" where
  "py_int s =
     (if \<exists>c \<in> set s. to_ascii c = None then None
      else
        (let a = map (\<lambda>c. the (to_ascii c)) s;
             b = rev (dropWhile c_isspace (rev (dropWhile c_isspace a)));
             negative = (b \<noteq> [] \<and> hd b = 45);
             body = (if b \<noteq> [] \<and> (hd b = 43 \<or> hd b = 45) then tl b else b);
             digits = filter (\<lambda>c. c \<noteq> 95) body
         in if body = [] \<or> hd body = 95 \<or> \<not> underscores_ok body
               \<or> (\<exists>c \<in> set body. c \<noteq> 95 \<and> \<not> (48 \<le> c \<and> c \<le> 57))
               \<or> int_max_str_digits < length digits
            then None
            else (let n = foldl (\<lambda>v c. 10 * v + int (c - 48)) 0 digits
                  in Some (if negative then - n else n))))"

text \<open>The sort key of \<open>page_sort_key\<close> is an \<open>int\<close> or \<open>float("inf")\<close>; Python
  compares the two exactly, and every \<open>int\<close> is below \<open>inf\<close>.\<close>

datatype page_key = Finite int | Infinity

instantiation page_key :: linorder
begin

fun less_eq_page_key :: "page_key \<Rightarrow> page_key \<Rightarrow> bool" where
  "less_eq_page_key _ Infinity = True"
| "less_eq_page_key Infinity (Finite _) = False"
| "less_eq_page_key (Finite a) (Finite b) = (a \<le> b)"

definition less_page_key :: "page_key \<Rightarrow> page_key \<Rightarrow> bool" where
  "less_page_key x y = (x \<le> y \<and> \<not> y \<le> (x::page_key))"

instance
proof
  fix x y z :: page_key
  show "(x < y) = (x \<le> y \<and> \<not> y \<le> x)" by (simp add: less_page_key_def)
  show "x \<le> x" by (cases x) simp_all
  show "x \<le> y \<Longrightarrow> y \<le> z \<Longrightarrow> x \<le> z" by (cases x; cases y; cases z) simp_all
  show "x \<le> y \<Longrightarrow> y \<le> x \<Longrightarrow> x = y" by (cases x; cases y) simp_all
  show "x \<le> y \<or> y \<le> x" by (cases x; cases y) auto
qed

end

definition page_sort_key :: "ustring option \<Rightarrow> page_key" where
  "page_sort_key page =
     (case page of
        None \<Rightarrow> Infinity
      | Some p \<Rightarrow>
          if p = [] then Infinity
          else (case py_int (hd (py_split 45 None p)) of
                  Some n \<Rightarrow> Finite n
                | None \<Rightarrow> Infinity))"

section \<open>The Kindle cleaner: the parser\<close>

definition normalize_title :: "ustring \<Rightarrow> ustring" where
  "normalize_title title = strip (lstrip_chars [65279] title)"

text \<open>One entry of the output, the dictionary with the keys \<open>text\<close>, \<open>page\<close> and
  \<open>timestamp\<close>; \<open>None\<close> is Python's \<open>None\<close>.\<close>

record annotation =
  text' :: ustring
  page :: "ustring option"
  timestamp :: "ustring option"

text \<open>\<open>grouped\<close> is a \<open>defaultdict(list)\<close>. A dictionary keeps its keys in the order
  of their first insertion, so it is an association list; \<open>grouped[title].append(a)\<close>
  adds to the list of an existing key and puts a new key last.\<close>

type_synonym grouped = "(ustring \<times> annotation list) list"

fun grouped_append :: "grouped \<Rightarrow> ustring \<Rightarrow> annotation \<Rightarrow> grouped" where
  "grouped_append [] title a = [(title, [a])]"
| "grouped_append ((k, v) # g) title a =
     (if k = title then (k, v @ [a]) # g else (k, v) # grouped_append g title a)"

text \<open>The inner loop of \<open>parse_kindle_annotations\<close>, from \<open>j\<close> with the lines
  collected so far; it returns the final \<open>j\<close> and \<open>annotation_lines\<close>.\<close>

function body_loop :: "ustring list \<Rightarrow> ustring \<Rightarrow> nat \<Rightarrow> ustring list \<Rightarrow> nat \<times> ustring list" where
  "body_loop lines title j annotation_lines =
     (if j < length lines \<and> strip (lines ! j) \<noteq> []
      then (let line = strip (lines ! j)
            in if line = SEPARATOR \<or> line = title \<or> startswith line META_PREFIX
               then body_loop lines title (j + 1) annotation_lines
               else body_loop lines title (j + 1) (annotation_lines @ [line]))
      else (j, annotation_lines))"
  by pat_completeness auto
termination
  by (relation "measure (\<lambda>(lines, title, j, annotation_lines). length lines - j)") auto

declare body_loop.simps [simp del]

lemma body_loop_unfold_stop:
  "\<not> (j < length lines \<and> strip (lines ! j) \<noteq> []) \<Longrightarrow>
   body_loop lines title j acc = (j, acc)"
  by (subst body_loop.simps) (simp only: if_False)

lemma body_loop_unfold_noise:
  "j < length lines \<and> strip (lines ! j) \<noteq> [] \<Longrightarrow>
   strip (lines ! j) = SEPARATOR \<or> strip (lines ! j) = title
     \<or> startswith (strip (lines ! j)) META_PREFIX \<Longrightarrow>
   body_loop lines title j acc = body_loop lines title (j + 1) acc"
  by (subst body_loop.simps) (simp only: if_True Let_def simp_thms)

lemma body_loop_unfold_keep:
  "j < length lines \<and> strip (lines ! j) \<noteq> [] \<Longrightarrow>
   \<not> (strip (lines ! j) = SEPARATOR \<or> strip (lines ! j) = title
     \<or> startswith (strip (lines ! j)) META_PREFIX) \<Longrightarrow>
   body_loop lines title j acc = body_loop lines title (j + 1) (acc @ [strip (lines ! j)])"
  by (subst body_loop.simps) (simp only: if_True if_False Let_def simp_thms)

lemma body_loop_ge: "j \<le> fst (body_loop lines title j acc)"
proof (induction lines title j acc rule: body_loop.induct)
  case (1 lines title j acc)
  show ?case
  proof (cases "j < length lines \<and> strip (lines ! j) \<noteq> []")
    case False
    then show ?thesis by (simp add: body_loop_unfold_stop)
  next
    case True
    show ?thesis
    proof (cases "strip (lines ! j) = SEPARATOR \<or> strip (lines ! j) = title
                    \<or> startswith (strip (lines ! j)) META_PREFIX")
      case noise: True
      from 1(1) [OF True refl noise] show ?thesis
        by (simp add: body_loop_unfold_noise [OF True noise])
    next
      case keep: False
      from 1(2) [OF True refl keep] show ?thesis
        by (simp add: body_loop_unfold_keep [OF True keep])
    qed
  qed
qed

text \<open>The timestamp of a metadata line: \<open>normalize_timestamp(ts_match.group(1)) if
  ts_match else None\<close>; an exception of \<open>normalize_timestamp\<close> is not caught.\<close>

definition meta_timestamp :: "ustring \<Rightarrow> error + ustring option" where
  "meta_timestamp meta =
     (case re_search TIMESTAMP_PATTERN meta of
        None \<Rightarrow> Inr None
      | Some raw \<Rightarrow>
          (case normalize_timestamp raw of
             Inl e \<Rightarrow> Inl e
           | Inr stamp \<Rightarrow> Inr (Some stamp)))"

text \<open>The outer loop, from \<open>i\<close> with the dictionary built so far. The loop condition
  is \<open>i < len(lines) - 2\<close> on Python's integers.\<close>

function scan_loop :: "ustring list \<Rightarrow> nat \<Rightarrow> grouped \<Rightarrow> error + grouped" where
  "scan_loop lines i grouped =
     (if int i < int (length lines) - 2
      then (let title = normalize_title (lines ! i);
                meta = strip (lines ! (i + 1))
            in if title = [] \<or> \<not> startswith meta META_PREFIX
               then scan_loop lines (i + 1) grouped
               else (case meta_timestamp meta of
                       Inl e \<Rightarrow> Inl e
                     | Inr ts \<Rightarrow>
                         (let r = body_loop lines title (i + 3) [];
                              annotation_text = strip (py_join 10 (snd r))
                          in scan_loop lines (fst r + 1)
                               (if annotation_text \<noteq> []
                                then grouped_append grouped title
                                       \<lparr>text' = annotation_text,
                                        page = re_search PAGE_PATTERN meta,
                                        timestamp = ts\<rparr>
                                else grouped))))
      else Inr grouped)"
  by pat_completeness auto
termination
proof (relation "measure (\<lambda>(lines, i, grouped). length lines - i)")
  show "wf (measure (\<lambda>(lines, i, grouped). length lines - i))" by simp
next
  fix lines :: "ustring list" and i :: nat and grouped :: grouped
  assume "int i < int (length lines) - 2"
  then show "((lines, i + 1, grouped), (lines, i, grouped))
      \<in> measure (\<lambda>(lines, i, grouped). length lines - i)"
    by simp
next
  fix lines :: "ustring list" and i :: nat and grouped g' :: grouped and title r
  assume "int i < int (length lines) - 2" and "r = body_loop lines title (i + 3) []"
  moreover have "i + 3 \<le> fst (body_loop lines title (i + 3) [])"
    by (rule body_loop_ge)
  ultimately show "((lines, fst r + 1, g'), (lines, i, grouped))
      \<in> measure (\<lambda>(lines, i, grouped). length lines - i)"
    by simp
qed

declare scan_loop.simps [simp del]

definition sort_items :: "annotation list \<Rightarrow> annotation list" where
  "sort_items items = sort_key (\<lambda>a. page_sort_key (page a)) items"

definition parse_kindle_annotations :: "ustring \<Rightarrow> error + grouped" where
  "parse_kindle_annotations text =
     (let lines = map rstrip (splitlines text)
      in case scan_loop lines 0 [] of
           Inl e \<Rightarrow> Inl e
         | Inr grouped \<Rightarrow> Inr (map (\<lambda>(title, items). (title, sort_items items)) grouped))"

section \<open>Properties of the timestamp conversion\<close>

lemma py_split_from_zero: "py_split_from sep (Some 0) cur s = [cur @ s]"
  by (induction s arbitrary: cur) auto

lemma py_split_from_no_sep:
  "sep \<notin> set s \<Longrightarrow> py_split_from sep k cur s = [cur @ s]"
  by (induction s arbitrary: cur) auto

lemma py_split_from_sep:
  "sep \<in> set s \<Longrightarrow> k \<noteq> Some 0 \<Longrightarrow>
   py_split_from sep k cur s =
     (cur @ takeWhile (\<lambda>c. c \<noteq> sep) s)
       # py_split_from sep (map_option (\<lambda>n. n - 1) k) [] (tl (dropWhile (\<lambda>c. c \<noteq> sep) s))"
  by (induction s arbitrary: cur) auto

lemma py_split_1:
  "py_split sep (Some 1) s =
     (if sep \<in> set s
      then [takeWhile (\<lambda>c. c \<noteq> sep) s, tl (dropWhile (\<lambda>c. c \<noteq> sep) s)]
      else [s])"
  by (simp add: py_split_def py_split_from_sep py_split_from_no_sep py_split_from_zero)

lemma py_split_Suc0:
  "py_split sep (Some (Suc 0)) s =
     (if sep \<in> set s
      then [takeWhile (\<lambda>c. c \<noteq> sep) s, tl (dropWhile (\<lambda>c. c \<noteq> sep) s)]
      else [s])"
  using py_split_1 [of sep s] by simp

lemma py_split_2:
  "py_split sep (Some 2) s =
     (if sep \<in> set s
      then takeWhile (\<lambda>c. c \<noteq> sep) s # py_split sep (Some 1) (tl (dropWhile (\<lambda>c. c \<noteq> sep) s))
      else [s])"
  by (simp add: py_split_def py_split_from_sep py_split_from_no_sep)

lemma split_at_first:
  "sep \<in> set s \<Longrightarrow>
   s = takeWhile (\<lambda>c. c \<noteq> sep) s @ sep # tl (dropWhile (\<lambda>c. c \<noteq> sep) s)"
  by (induction s) auto

lemma split_unique:
  "sep \<notin> set a \<Longrightarrow> takeWhile (\<lambda>c. c \<noteq> sep) (a @ sep # b) = a
     \<and> tl (dropWhile (\<lambda>c. c \<noteq> sep) (a @ sep # b)) = b"
  by (induction a) auto


text \<open>The keys of the table \<open>months\<close>: the twelve German month names.\<close>

definition month_names :: "ustring list" where
  "month_names = map fst months"

lemma map_of_months_None: "map_of months m = None \<longleftrightarrow> m \<notin> set month_names"
  by (simp add: month_names_def map_of_eq_None_iff)

lemma normalize_timestamp_cases:
  "normalize_timestamp raw =
     (if 44 \<notin> set raw then Inl ValueError
      else let rest = strip (tl (dropWhile (\<lambda>c. c \<noteq> 44) raw)) in
        if 32 \<notin> set rest then Inl ValueError
        else let day = takeWhile (\<lambda>c. c \<noteq> 32) rest;
                 r1 = tl (dropWhile (\<lambda>c. c \<noteq> 32) rest) in
          if 32 \<notin> set r1 then Inl ValueError
          else let month = takeWhile (\<lambda>c. c \<noteq> 32) r1;
                   year_time = tl (dropWhile (\<lambda>c. c \<noteq> 32) r1) in
            if 32 \<notin> set year_time then Inl ValueError
            else (case map_of months month of
                    None \<Rightarrow> Inl KeyError
                  | Some mm \<Rightarrow>
                      Inr (takeWhile (\<lambda>c. c \<noteq> 32) year_time @ ustr ''-'' @ mm @ ustr ''-''
                           @ zfill 2 day @ ustr ''T''
                           @ tl (dropWhile (\<lambda>c. c \<noteq> 32) year_time))))"
  by (simp add: normalize_timestamp_def py_split_Suc0 py_split_2 Let_def)

text \<open>
  Claim C3. A raw timestamp is of the expected shape when it has a comma and the text
  after the first comma, stripped, consists of a day, a blank, a month name of the
  table, a blank and the rest. For every raw string that is not of this shape (no
  comma, fewer than three groups, or a month name that is not one of the twelve),
  \<open>normalize_timestamp\<close> raises \<open>ValueError\<close> or \<open>KeyError\<close>; it returns no value,
  so no date is produced for an unrecognized month.
\<close>

theorem normalize_timestamp_fails:
  assumes "\<not> (\<exists>weekday rest day month year_time.
              raw = weekday @ 44 # rest \<and> 44 \<notin> set weekday \<and>
              strip rest = day @ 32 # month @ 32 # year_time \<and>
              32 \<notin> set day \<and> 32 \<notin> set month \<and> month \<in> set month_names)"
  shows "normalize_timestamp raw = Inl ValueError \<or> normalize_timestamp raw = Inl KeyError"
proof (rule ccontr)
  assume neg: "\<not> ?thesis"
  let ?tail = "tl (dropWhile (\<lambda>c. c \<noteq> 44) raw)"
  let ?rest = "strip ?tail"
  let ?day = "takeWhile (\<lambda>c. c \<noteq> 32) ?rest"
  let ?r1 = "tl (dropWhile (\<lambda>c. c \<noteq> 32) ?rest)"
  let ?month = "takeWhile (\<lambda>c. c \<noteq> 32) ?r1"
  let ?yt = "tl (dropWhile (\<lambda>c. c \<noteq> 32) ?r1)"
  from neg have c: "44 \<in> set raw"
    by (auto simp: normalize_timestamp_cases split: if_splits)
  with neg have s1: "32 \<in> set ?rest"
    by (auto simp: normalize_timestamp_cases Let_def split: if_splits)
  with neg c have s2: "32 \<in> set ?r1"
    by (auto simp: normalize_timestamp_cases Let_def split: if_splits)
  with neg c s1 have m: "map_of months ?month \<noteq> None"
    by (auto simp: normalize_timestamp_cases Let_def split: if_splits option.splits)
  have "raw = takeWhile (\<lambda>c. c \<noteq> 44) raw @ 44 # ?tail"
    using c by (rule split_at_first)
  moreover have "44 \<notin> set (takeWhile (\<lambda>c. c \<noteq> 44) raw)"
    by (auto dest: set_takeWhileD)
  moreover have "?rest = ?day @ 32 # ?r1"
    using s1 by (rule split_at_first)
  moreover have "?r1 = ?month @ 32 # ?yt"
    using s2 by (rule split_at_first)
  moreover have "32 \<notin> set ?day" "32 \<notin> set ?month"
    by (auto dest: set_takeWhileD)
  moreover have "?month \<in> set month_names"
    using m by (simp add: map_of_months_None)
  ultimately show False using assms by metis
qed


lemma long_form_shape_iff:
  "(\<exists>weekday rest day month year_time.
      raw = weekday @ 44 # rest \<and> 44 \<notin> set weekday \<and>
      strip rest = day @ 32 # month @ 32 # year_time \<and>
      32 \<notin> set day \<and> 32 \<notin> set month \<and> month \<in> set month_names)
   \<longleftrightarrow>
   (44 \<in> set raw \<and>
    32 \<in> set (strip (tl (dropWhile (\<lambda>c. c \<noteq> 44) raw))) \<and>
    32 \<in> set (tl (dropWhile (\<lambda>c. c \<noteq> 32) (strip (tl (dropWhile (\<lambda>c. c \<noteq> 44) raw))))) \<and>
    takeWhile (\<lambda>c. c \<noteq> 32)
      (tl (dropWhile (\<lambda>c. c \<noteq> 32) (strip (tl (dropWhile (\<lambda>c. c \<noteq> 44) raw)))))
      \<in> set month_names)"
  (is "?L \<longleftrightarrow> ?R")
proof
  assume ?L
  then obtain weekday rest day month year_time where
    d: "raw = weekday @ 44 # rest" "44 \<notin> set weekday"
       "strip rest = day @ 32 # month @ 32 # year_time"
       "32 \<notin> set day" "32 \<notin> set month" "month \<in> set month_names"
    by blast
  have r: "tl (dropWhile (\<lambda>c. c \<noteq> 44) raw) = rest"
    using d(1,2) split_unique [of 44 weekday rest] by simp
  have r1: "tl (dropWhile (\<lambda>c. c \<noteq> 32) (strip rest)) = month @ 32 # year_time"
    using d(3,4) split_unique [of 32 day "month @ 32 # year_time"] by simp
  have m: "takeWhile (\<lambda>c. c \<noteq> 32) (month @ 32 # year_time) = month"
    using d(5) split_unique [of 32 month year_time] by simp
  show ?R using d r r1 m by simp
next
  assume R: ?R
  let ?tail = "tl (dropWhile (\<lambda>c. c \<noteq> 44) raw)"
  let ?rest = "strip ?tail"
  let ?r1 = "tl (dropWhile (\<lambda>c. c \<noteq> 32) ?rest)"
  have "raw = takeWhile (\<lambda>c. c \<noteq> 44) raw @ 44 # ?tail"
    using R by (intro split_at_first) simp
  moreover have "44 \<notin> set (takeWhile (\<lambda>c. c \<noteq> 44) raw)"
    by (auto dest: set_takeWhileD)
  moreover have "?rest = takeWhile (\<lambda>c. c \<noteq> 32) ?rest @ 32 # ?r1"
    using R by (intro split_at_first) simp
  moreover have "?r1 = takeWhile (\<lambda>c. c \<noteq> 32) ?r1 @ 32 # tl (dropWhile (\<lambda>c. c \<noteq> 32) ?r1)"
    using R by (intro split_at_first) simp
  moreover have "32 \<notin> set (takeWhile (\<lambda>c. c \<noteq> 32) ?rest)"
      "32 \<notin> set (takeWhile (\<lambda>c. c \<noteq> 32) ?r1)"
    by (auto dest: set_takeWhileD)
  ultimately show ?L using R by metis
qed

lemmas string_eval = ustr_def strip_def lstrip_def rstrip_def isspace_def

theorem normalize_timestamp_fails_witness:
  "normalize_timestamp (ustr ''Donnerstag, 25. Dezembr 2025 12:01:07'') = Inl ValueError
   \<or> normalize_timestamp (ustr ''Donnerstag, 25. Dezembr 2025 12:01:07'') = Inl KeyError"
  by (rule normalize_timestamp_fails, subst long_form_shape_iff)
     (simp add: string_eval month_names_def months_def)

text \<open>
  Claim C2. The docstring of \<open>normalize_timestamp\<close> and the specification give
  \<open>2025-12-25T12:01:07\<close> for \<open>Donnerstag, 25. Dezember 2025 12:01:07\<close>. The code
  splits the day off at the first blank, so the day is \<open>25.\<close> with its dot;
  \<open>zfill(2)\<close> leaves the three characters as they are and the result is
  \<open>2025-12-25.T12:01:07\<close>.
\<close>

theorem normalize_timestamp_docstring_example:
  "normalize_timestamp (ustr ''Donnerstag, 25. Dezember 2025 12:01:07'')
     = Inr (ustr ''2025-12-25.T12:01:07'')"
  by (simp add: normalize_timestamp_def py_split_def string_eval months_def zfill_def)

section \<open>Properties of the body extraction\<close>

text \<open>A line of the body run is noise for a record when it is the separator, the
  record's title, or starts with the metadata prefix (the test of the inner loop).\<close>

definition is_noise :: "ustring \<Rightarrow> ustring \<Rightarrow> bool" where
  "is_noise title line = (line = SEPARATOR \<or> line = title \<or> startswith line META_PREFIX)"

text \<open>The body run from line \<open>j\<close>: the lines up to the first blank line or the end
  of the input.\<close>

definition body_run :: "ustring list \<Rightarrow> nat \<Rightarrow> ustring list" where
  "body_run lines j = takeWhile (\<lambda>l. strip l \<noteq> []) (drop j lines)"

lemma body_run_stop:
  "\<not> (j < length lines \<and> strip (lines ! j) \<noteq> []) \<Longrightarrow> body_run lines j = []"
  by (cases "j < length lines") (auto simp: body_run_def Cons_nth_drop_Suc [symmetric])

lemma body_run_step:
  "j < length lines \<and> strip (lines ! j) \<noteq> [] \<Longrightarrow>
   body_run lines j = lines ! j # body_run lines (j + 1)"
  by (auto simp: body_run_def Cons_nth_drop_Suc [symmetric])

lemma body_loop_eq:
  "body_loop lines title j acc =
     (j + length (body_run lines j),
      acc @ filter (\<lambda>l. \<not> is_noise title l) (map strip (body_run lines j)))"
proof (induction lines title j acc rule: body_loop.induct)
  case (1 lines title j acc)
  show ?case
  proof (cases "j < length lines \<and> strip (lines ! j) \<noteq> []")
    case False
    then show ?thesis by (simp add: body_loop_unfold_stop body_run_stop)
  next
    case True
    show ?thesis
    proof (cases "strip (lines ! j) = SEPARATOR \<or> strip (lines ! j) = title
                    \<or> startswith (strip (lines ! j)) META_PREFIX")
      case noise: True
      from 1(1) [OF True refl noise] noise show ?thesis
        by (simp add: body_loop_unfold_noise [OF True noise] body_run_step [OF True] is_noise_def)
    next
      case keep: False
      from 1(2) [OF True refl keep] keep show ?thesis
        by (simp add: body_loop_unfold_keep [OF True keep] body_run_step [OF True] is_noise_def)
    qed
  qed
qed

lemma last_dropWhile_nonempty:
  "dropWhile P xs \<noteq> [] \<Longrightarrow> last (dropWhile P xs) = last xs"
  by (induction xs) (auto split: if_splits)

lemma strip_hd: "strip s \<noteq> [] \<Longrightarrow> \<not> isspace (hd (strip s))"
proof -
  assume a: "strip s \<noteq> []"
  let ?u = "dropWhile isspace s"
  have d: "dropWhile isspace (rev ?u) \<noteq> []" using a by (simp add: strip_def lstrip_def rstrip_def)
  have u: "?u \<noteq> []"
  proof
    assume e: "?u = []"
    have "dropWhile isspace (rev ?u) = []" unfolding e by simp
    with d show False by contradiction
  qed
  have "hd (strip s) = last (dropWhile isspace (rev ?u))"
    using d by (simp add: strip_def lstrip_def rstrip_def hd_rev)
  also have "\<dots> = last (rev ?u)" using d by (rule last_dropWhile_nonempty)
  also have "\<dots> = hd ?u" using u by (simp add: last_rev)
  finally show ?thesis using u hd_dropWhile [of isspace s] by simp
qed

lemma strip_last: "strip s \<noteq> [] \<Longrightarrow> \<not> isspace (last (strip s))"
proof -
  assume a: "strip s \<noteq> []"
  let ?t = "rev (dropWhile isspace s)"
  have d: "dropWhile isspace ?t \<noteq> []" using a by (simp add: strip_def lstrip_def rstrip_def)
  have "last (strip s) = hd (dropWhile isspace ?t)"
    using d by (simp add: strip_def lstrip_def rstrip_def last_rev)
  then show ?thesis using d hd_dropWhile [of isspace ?t] by simp
qed

lemma strip_id: "s \<noteq> [] \<Longrightarrow> \<not> isspace (hd s) \<Longrightarrow> \<not> isspace (last s) \<Longrightarrow> strip s = s"
proof -
  assume a: "s \<noteq> []" "\<not> isspace (hd s)" "\<not> isspace (last s)"
  have 1: "dropWhile isspace s = s" using a by (cases s) auto
  have "rev s \<noteq> []" "\<not> isspace (hd (rev s))" using a by (auto simp: hd_rev)
  then have 2: "dropWhile isspace (rev s) = rev s" by (cases "rev s") auto
  show ?thesis by (simp add: strip_def lstrip_def rstrip_def 1 2)
qed

lemma strip_empty: "strip [] = []"
  by (simp add: strip_def lstrip_def rstrip_def)

lemma py_join_hd_last:
  "ls \<noteq> [] \<Longrightarrow> \<forall>l \<in> set ls. l \<noteq> [] \<Longrightarrow>
   py_join sep ls \<noteq> [] \<and> hd (py_join sep ls) = hd (hd ls) \<and> last (py_join sep ls) = last (last ls)"
  by (induction sep ls rule: py_join.induct) auto

lemma strip_join_stripped:
  assumes "\<forall>l \<in> set ls. l \<noteq> [] \<and> (\<exists>s. l = strip s)"
  shows "strip (py_join sep ls) = py_join sep ls"
proof (cases "ls = []")
  case True
  then show ?thesis by (simp add: strip_empty)
next
  case False
  then have h: "hd ls \<in> set ls" and l: "last ls \<in> set ls" by auto
  from assms have ne: "\<forall>l \<in> set ls. l \<noteq> []" by blast
  from h assms have "\<not> isspace (hd (hd ls))" by (metis strip_hd)
  moreover from l assms have "\<not> isspace (last (last ls))" by (metis strip_last)
  ultimately show ?thesis
    using py_join_hd_last [OF False ne, of sep] by (intro strip_id) auto
qed

lemma body_run_nonblank: "l \<in> set (body_run lines j) \<Longrightarrow> strip l \<noteq> []"
  by (auto simp: body_run_def dest: set_takeWhileD)

text \<open>The inner loop stops exactly behind the body run, at the first blank line or
  at the end of the input; the lines it collects are the stripped lines of the run that
  are not noise, in order; and stripping their join changes nothing.\<close>

lemma body_loop_run:
  "body_loop lines title j [] =
     (j + length (body_run lines j),
      filter (\<lambda>l. \<not> is_noise title l) (map strip (body_run lines j)))
   \<and> strip (py_join 10 (snd (body_loop lines title j [])))
       = py_join 10 (snd (body_loop lines title j []))
   \<and> (\<forall>l \<in> set (snd (body_loop lines title j [])).
        l \<noteq> [] \<and> l \<noteq> SEPARATOR \<and> l \<noteq> title \<and> \<not> startswith l META_PREFIX)
   \<and> (j \<le> length lines \<longrightarrow>
        fst (body_loop lines title j []) = length lines
        \<or> strip (lines ! fst (body_loop lines title j [])) = [])"
proof (intro conjI)
  show eq: "body_loop lines title j [] =
     (j + length (body_run lines j),
      filter (\<lambda>l. \<not> is_noise title l) (map strip (body_run lines j)))"
    by (simp add: body_loop_eq)
  show kept: "\<forall>l \<in> set (snd (body_loop lines title j [])).
        l \<noteq> [] \<and> l \<noteq> SEPARATOR \<and> l \<noteq> title \<and> \<not> startswith l META_PREFIX"
    by (auto simp: eq is_noise_def dest: body_run_nonblank)
  have "\<forall>l \<in> set (snd (body_loop lines title j [])). l \<noteq> [] \<and> (\<exists>s. l = strip s)"
    by (auto simp: eq dest: body_run_nonblank)
  then show "strip (py_join 10 (snd (body_loop lines title j [])))
       = py_join 10 (snd (body_loop lines title j []))"
    by (rule strip_join_stripped)
  show "j \<le> length lines \<longrightarrow>
        fst (body_loop lines title j []) = length lines
        \<or> strip (lines ! fst (body_loop lines title j [])) = []"
  proof
    assume j: "j \<le> length lines"
    let ?P = "\<lambda>l. strip l \<noteq> []"
    let ?n = "length (takeWhile ?P (drop j lines))"
    show "fst (body_loop lines title j []) = length lines
        \<or> strip (lines ! fst (body_loop lines title j [])) = []"
    proof (cases "?n < length (drop j lines)")
      case True
      then have "\<not> ?P (drop j lines ! ?n)" by (rule nth_length_takeWhile)
      moreover have "drop j lines ! ?n = lines ! (j + ?n)" using j by simp
      ultimately show ?thesis by (simp add: eq body_run_def)
    next
      case False
      moreover have "?n \<le> length (drop j lines)" by (rule length_takeWhile_le)
      ultimately have "?n = length lines - j" by simp
      then show ?thesis using j by (simp add: eq body_run_def)
    qed
  qed
qed

section \<open>The outer loop, record by record\<close>

text \<open>Line \<open>i\<close> starts a record when the test \<open>not title or not
  meta.startswith(META_PREFIX)\<close> of the outer loop fails there.\<close>

definition is_record :: "ustring list \<Rightarrow> nat \<Rightarrow> bool" where
  "is_record lines i =
     (normalize_title (lines ! i) \<noteq> [] \<and> startswith (strip (lines ! (i + 1))) META_PREFIX)"

text \<open>For a record at line \<open>i\<close>: its \<open>annotation_text\<close>, the value \<open>j + 1\<close> the
  outer loop continues with, and the dictionary it appends when the text is not empty.\<close>

definition record_text :: "ustring list \<Rightarrow> nat \<Rightarrow> ustring" where
  "record_text lines i =
     strip (py_join 10 (snd (body_loop lines (normalize_title (lines ! i)) (i + 3) [])))"

definition record_next :: "ustring list \<Rightarrow> nat \<Rightarrow> nat" where
  "record_next lines i = fst (body_loop lines (normalize_title (lines ! i)) (i + 3) []) + 1"

definition record_entry :: "ustring list \<Rightarrow> nat \<Rightarrow> ustring option \<Rightarrow> annotation" where
  "record_entry lines i ts =
     \<lparr>text' = record_text lines i,
      page = re_search PAGE_PATTERN (strip (lines ! (i + 1))),
      timestamp = ts\<rparr>"

lemma scan_loop_stop:
  "\<not> int i < int (length lines) - 2 \<Longrightarrow> scan_loop lines i g = Inr g"
  by (subst scan_loop.simps) (simp only: if_False)

lemma scan_loop_skip:
  "int i < int (length lines) - 2 \<Longrightarrow> \<not> is_record lines i \<Longrightarrow>
   scan_loop lines i g = scan_loop lines (i + 1) g"
  by (subst scan_loop.simps) (auto simp only: is_record_def if_True Let_def simp_thms de_Morgan_conj)

lemma scan_loop_record:
  "int i < int (length lines) - 2 \<Longrightarrow> is_record lines i \<Longrightarrow>
   scan_loop lines i g =
     (case meta_timestamp (strip (lines ! (i + 1))) of
        Inl e \<Rightarrow> Inl e
      | Inr ts \<Rightarrow>
          scan_loop lines (record_next lines i)
            (if record_text lines i \<noteq> []
             then grouped_append g (normalize_title (lines ! i)) (record_entry lines i ts)
             else g))"
  by (subst scan_loop.simps)
     (simp add: is_record_def Let_def record_text_def record_next_def record_entry_def
        split: sum.split)

text \<open>The calls \<open>grouped[title].append(...)\<close> the outer loop makes from line \<open>i\<close> on,
  in the order it makes them, each as the pair of the title and the entry; an exception of
  \<open>normalize_timestamp\<close> ends the loop with that exception.\<close>

function emitted :: "ustring list \<Rightarrow> nat \<Rightarrow> error + (ustring \<times> annotation) list" where
  "emitted lines i =
     (if int i < int (length lines) - 2
      then (if \<not> is_record lines i then emitted lines (i + 1)
            else (case meta_timestamp (strip (lines ! (i + 1))) of
                    Inl e \<Rightarrow> Inl e
                  | Inr ts \<Rightarrow>
                      (case emitted lines (record_next lines i) of
                         Inl e \<Rightarrow> Inl e
                       | Inr rest \<Rightarrow>
                           Inr (if record_text lines i \<noteq> []
                                then (normalize_title (lines ! i), record_entry lines i ts) # rest
                                else rest))))
      else Inr [])"
  by pat_completeness auto
termination
proof (relation "measure (\<lambda>(lines, i). length lines - i)")
  show "wf (measure (\<lambda>(lines, i). length lines - i))" by simp
next
  fix lines :: "ustring list" and i :: nat
  assume "int i < int (length lines) - 2"
  then show "((lines, i + 1), (lines, i)) \<in> measure (\<lambda>(lines, i). length lines - i)"
    by simp
next
  fix lines :: "ustring list" and i :: nat
  assume "int i < int (length lines) - 2"
  moreover have "i + 3 \<le> fst (body_loop lines (normalize_title (lines ! i)) (i + 3) [])"
    by (rule body_loop_ge)
  ultimately show "((lines, record_next lines i), (lines, i))
      \<in> measure (\<lambda>(lines, i). length lines - i)"
    by (simp add: record_next_def)
qed

declare emitted.simps [simp del]

text \<open>The dictionary after a sequence of such calls.\<close>

definition group_all :: "grouped \<Rightarrow> (ustring \<times> annotation) list \<Rightarrow> grouped" where
  "group_all g xs = foldl (\<lambda>g (t, a). grouped_append g t a) g xs"

lemma group_all_Nil [simp]: "group_all g [] = g"
  by (simp add: group_all_def)

lemma group_all_Cons [simp]: "group_all g ((t, a) # xs) = group_all (grouped_append g t a) xs"
  by (simp add: group_all_def)

lemma scan_loop_emitted:
  "scan_loop lines i g =
     (case emitted lines i of Inl e \<Rightarrow> Inl e | Inr xs \<Rightarrow> Inr (group_all g xs))"
proof (induction lines i arbitrary: g rule: emitted.induct)
  case (1 lines i)
  show ?case
  proof (cases "int i < int (length lines) - 2")
    case False
    then show ?thesis
      by (simp add: scan_loop_stop emitted.simps [of lines i])
  next
    case True
    show ?thesis
    proof (cases "is_record lines i")
      case False
      with True 1(1) [OF True False] show ?thesis
        by (simp add: scan_loop_skip emitted.simps [of lines i])
    next
      case rec: True
      then have nn: "\<not> \<not> is_record lines i" by simp
      show ?thesis
      proof (cases "meta_timestamp (strip (lines ! (i + 1)))")
        case (Inl e)
        with True rec show ?thesis
          by (simp add: scan_loop_record emitted.simps [of lines i])
      next
        case (Inr ts)
        note ih = 1(2) [OF True nn Inr]
        from True rec Inr show ?thesis
          by (simp add: scan_loop_record emitted.simps [of lines i] ih split: sum.split)
      qed
    qed
  qed
qed

section \<open>Properties of the body extraction, in the parser\<close>

text \<open>The lines of the body run of the record at line \<open>i\<close> that are kept: the stripped
  lines of the run from line \<open>i + 3\<close> that are not noise for the record's title.\<close>

definition kept_lines :: "ustring list \<Rightarrow> nat \<Rightarrow> ustring list" where
  "kept_lines lines i =
     filter (\<lambda>l. \<not> is_noise (normalize_title (lines ! i)) l) (map strip (body_run lines (i + 3)))"

lemma record_text_kept: "record_text lines i = py_join 10 (kept_lines lines i)"
proof -
  have "\<forall>l \<in> set (kept_lines lines i). l \<noteq> [] \<and> (\<exists>s. l = strip s)"
    by (auto simp: kept_lines_def dest: body_run_nonblank)
  then have "strip (py_join 10 (kept_lines lines i)) = py_join 10 (kept_lines lines i)"
    by (rule strip_join_stripped)
  then show ?thesis
    by (simp add: record_text_def kept_lines_def body_loop_eq)
qed

lemma record_next_run: "record_next lines i = i + 3 + length (body_run lines (i + 3)) + 1"
  by (simp add: record_next_def body_loop_eq)

lemma kept_lines_nonempty: "l \<in> set (kept_lines lines i) \<Longrightarrow> l \<noteq> []"
  by (auto simp: kept_lines_def dest: body_run_nonblank)

lemma py_join_Nil_iff: "\<forall>l \<in> set ls. l \<noteq> [] \<Longrightarrow> py_join sep ls = [] \<longleftrightarrow> ls = []"
  by (induction sep ls rule: py_join.induct) auto

lemma join_kept_empty_iff: "py_join 10 (kept_lines lines i) = [] \<longleftrightarrow> kept_lines lines i = []"
  by (simp add: py_join_Nil_iff kept_lines_nonempty)

text \<open>
  Claim C5. When the outer loop of \<open>parse_kindle_annotations\<close> is at a record (line \<open>i\<close>
  holds a title, line \<open>i + 1\<close> a metadata line whose timestamp converts), the body run is
  the lines from \<open>i + 3\<close> up to the first blank line or the end of the input; the loop
  goes on behind the line that ends the run; the lines of the run that equal the
  separator or the record's title or start with the metadata prefix are left out and
  do not end the run; all other lines of the run, stripped and joined with newlines, are
  the \<open>text\<close> of the entry appended under the title (no entry when none is left).
\<close>

theorem body_extraction:
  assumes "int i < int (length lines) - 2"
    and "is_record lines i"
    and "meta_timestamp (strip (lines ! (i + 1))) = Inr ts"
  shows "scan_loop lines i g =
           scan_loop lines (i + 3 + length (body_run lines (i + 3)) + 1)
             (if kept_lines lines i = [] then g
              else grouped_append g (normalize_title (lines ! i))
                     \<lparr>text' = py_join 10 (kept_lines lines i),
                      page = re_search PAGE_PATTERN (strip (lines ! (i + 1))),
                      timestamp = ts\<rparr>)
         \<and> body_run lines (i + 3) = takeWhile (\<lambda>l. strip l \<noteq> []) (drop (i + 3) lines)
         \<and> kept_lines lines i =
             filter (\<lambda>l. \<not> (l = SEPARATOR \<or> l = normalize_title (lines ! i)
                              \<or> startswith l META_PREFIX))
               (map strip (body_run lines (i + 3)))"
proof (intro conjI)
  show "scan_loop lines i g =
           scan_loop lines (i + 3 + length (body_run lines (i + 3)) + 1)
             (if kept_lines lines i = [] then g
              else grouped_append g (normalize_title (lines ! i))
                     \<lparr>text' = py_join 10 (kept_lines lines i),
                      page = re_search PAGE_PATTERN (strip (lines ! (i + 1))),
                      timestamp = ts\<rparr>)"
    using assms(3)
    by (simp add: scan_loop_record [OF assms(1,2)] join_kept_empty_iff record_next_run
          record_entry_def record_text_kept)
  show "body_run lines (i + 3) = takeWhile (\<lambda>l. strip l \<noteq> []) (drop (i + 3) lines)"
    by (simp add: body_run_def)
  show "kept_lines lines i =
             filter (\<lambda>l. \<not> (l = SEPARATOR \<or> l = normalize_title (lines ! i)
                              \<or> startswith l META_PREFIX))
               (map strip (body_run lines (i + 3)))"
    by (simp add: kept_lines_def is_noise_def)
qed

text \<open>An export whose body re-includes the separator, the title and a second metadata
  line.\<close>

definition c5_text :: ustring where
  "c5_text = ustr ''T'' @ [10] @ ustr ''- Deine Markierung auf Seite 5'' @ [10] @ [10]
     @ ustr '' a '' @ [10] @ ustr ''=========='' @ [10] @ ustr ''T'' @ [10]
     @ ustr ''- Deine Markierung x'' @ [10] @ ustr ''b'' @ [10] @ [10] @ ustr ''c'' @ [10]"

lemmas parser_eval = normalize_title_def lstrip_chars_def startswith_def META_PREFIX_def
  SEPARATOR_def is_record_def meta_timestamp_def TIMESTAMP_PATTERN_def TIMESTAMP_PREFIX_def
  PAGE_PATTERN_def isdecimal_def decimal_def nd_zeros_def

lemma c5_lines:
  "map rstrip (splitlines c5_text) =
     [ustr ''T'', ustr ''- Deine Markierung auf Seite 5'', [], ustr '' a'', ustr ''=========='',
      ustr ''T'', ustr ''- Deine Markierung x'', ustr ''b'', [], ustr ''c'']"
  by (simp add: c5_text_def splitlines_def is_linebreak_def string_eval)

theorem body_extraction_witness:
  "parse_kindle_annotations c5_text =
     Inr [(ustr ''T'', [\<lparr>text' = ustr ''a'' @ [10] @ ustr ''b'', page = Some (ustr ''5''),
                         timestamp = None\<rparr>])]"
proof -
  let ?L = "[ustr ''T'', ustr ''- Deine Markierung auf Seite 5'', [], ustr '' a'',
      ustr ''=========='', ustr ''T'', ustr ''- Deine Markierung x'', ustr ''b'', [], ustr ''c'']"
  have "scan_loop ?L 0 [] =
          scan_loop ?L 9 [(ustr ''T'', [\<lparr>text' = ustr ''a'' @ [10] @ ustr ''b'',
                                          page = Some (ustr ''5''), timestamp = None\<rparr>])]"
    using body_extraction [of 0 ?L None "[]"]
    by (simp add: parser_eval string_eval)
  then show ?thesis
    by (simp add: parse_kindle_annotations_def c5_lines scan_loop_stop sort_items_def)
qed

section \<open>The parser on the example of the specification\<close>

text \<open>The five-line export of the example; the letter after \<open>Hinzugef\<close> is u-umlaut, code
  point 252.\<close>

definition c1_text :: ustring where
  "c1_text = ustr ''Deep Work'' @ [10]
     @ ustr ''- Deine Markierung auf Seite 42 | Position 813-814 | Hinzugef'' @ [252]
     @ ustr ''gt am Donnerstag, 1. Januar 2025 09:00:00'' @ [10]
     @ [10]
     @ ustr ''Focus is the new IQ.'' @ [10]
     @ ustr ''=========='' @ [10]"

definition c1_meta :: ustring where
  "c1_meta = ustr ''- Deine Markierung auf Seite 42 | Position 813-814 | Hinzugef'' @ [252]
        @ ustr ''gt am Donnerstag, 1. Januar 2025 09:00:00''"

lemma c1_lines:
  "map rstrip (splitlines c1_text) =
     [ustr ''Deep Work'', c1_meta, [], ustr ''Focus is the new IQ.'', ustr ''=========='']"
  by (simp add: c1_text_def c1_meta_def splitlines_def is_linebreak_def string_eval)

lemma c1_meta_strip: "strip c1_meta = c1_meta"
  by (simp add: c1_meta_def string_eval)

lemma c1_meta_prefix: "startswith c1_meta META_PREFIX"
  by (simp add: c1_meta_def startswith_def META_PREFIX_def ustr_def)

lemma c1_timestamp:
  "meta_timestamp c1_meta = Inr (Some (ustr ''2025-01-1.T09:00:00''))"
  by (simp add: c1_meta_def meta_timestamp_def TIMESTAMP_PATTERN_def TIMESTAMP_PREFIX_def
        startswith_def normalize_timestamp_def py_split_def months_def zfill_def string_eval)

lemma c1_page: "re_search PAGE_PATTERN c1_meta = Some (ustr ''42'')"
  by (simp add: c1_meta_def PAGE_PATTERN_def startswith_def isdecimal_def decimal_def
        nd_zeros_def string_eval)

text \<open>
  Claim C1. On the five-line export the parser returns one key, \<open>Deep Work\<close>, with one
  entry of text \<open>Focus is the new IQ.\<close> and page \<open>42\<close>. Its timestamp is
  \<open>2025-01-1.T09:00:00\<close>, not \<open>2025-01-01T09:00:00\<close>: \<open>normalize_timestamp\<close> keeps the
  dot of the day \<open>1.\<close>, and \<open>zfill(2)\<close> adds nothing to a string of two characters.
\<close>

theorem parse_spec_example:
  "parse_kindle_annotations c1_text =
     Inr [(ustr ''Deep Work'',
           [\<lparr>text' = ustr ''Focus is the new IQ.'', page = Some (ustr ''42''),
             timestamp = Some (ustr ''2025-01-1.T09:00:00'')\<rparr>])]"
proof -
  let ?L = "[ustr ''Deep Work'', c1_meta, [], ustr ''Focus is the new IQ.'', ustr ''=========='']"
  have title: "normalize_title (ustr ''Deep Work'') = ustr ''Deep Work''"
    by (simp add: normalize_title_def lstrip_chars_def string_eval)
  have rec: "is_record ?L 0"
    by (simp add: is_record_def c1_meta_strip c1_meta_prefix title) (simp add: ustr_def)
  have run: "body_loop ?L (ustr ''Deep Work'') 3 [] = (5, [ustr ''Focus is the new IQ.''])"
    by (simp add: body_loop_eq body_run_def is_noise_def
          SEPARATOR_def META_PREFIX_def startswith_def string_eval)
  have "scan_loop ?L 0 [] =
          scan_loop ?L 6 [(ustr ''Deep Work'',
           [\<lparr>text' = ustr ''Focus is the new IQ.'', page = Some (ustr ''42''),
             timestamp = Some (ustr ''2025-01-1.T09:00:00'')\<rparr>])]"
    by (simp add: scan_loop_record [OF _ rec] c1_meta_strip c1_timestamp c1_page
          record_next_def record_text_def record_entry_def title run)
       (simp add: string_eval)
  then show ?thesis
    by (simp add: parse_kindle_annotations_def c1_lines scan_loop_stop sort_items_def)
qed

section \<open>The result of the parser in terms of the appended entries\<close>

text \<open>The entries appended under title \<open>t\<close>, in the order of the calls, and the titles
  in the order of their first call.\<close>

definition entries_of :: "(ustring \<times> annotation) list \<Rightarrow> ustring \<Rightarrow> annotation list" where
  "entries_of xs t = map snd (filter (\<lambda>x. fst x = t) xs)"

definition first_titles :: "ustring list \<Rightarrow> ustring list" where
  "first_titles ts = rev (remdups (rev ts))"

lemma first_titles_snoc:
  "first_titles (ts @ [t]) = (if t \<in> set ts then first_titles ts else first_titles ts @ [t])"
  by (simp add: first_titles_def)

lemma set_first_titles [simp]: "set (first_titles ts) = set ts"
  by (simp add: first_titles_def)

lemma distinct_first_titles [simp]: "distinct (first_titles ts)"
  by (simp add: first_titles_def)

lemma entries_of_snoc:
  "entries_of (xs @ [(t, a)]) k = (if k = t then entries_of xs k @ [a] else entries_of xs k)"
  by (auto simp: entries_of_def)

lemma entries_of_Nil_iff: "entries_of xs t = [] \<longleftrightarrow> t \<notin> fst ` set xs"
  by (auto simp: entries_of_def filter_empty_conv)

lemma grouped_append_map:
  "grouped_append (map (\<lambda>k. (k, f k)) ks) t a =
     (if t \<in> set ks
      then map (\<lambda>k. (k, if k = t then f k @ [a] else f k)) ks
      else map (\<lambda>k. (k, f k)) ks @ [(t, [a])])"
  if "distinct ks"
  using that by (induction ks) auto

lemma group_all_snoc: "group_all g (xs @ [(t, a)]) = grouped_append (group_all g xs) t a"
  by (simp add: group_all_def)

lemma group_all_char:
  "group_all [] xs = map (\<lambda>t. (t, entries_of xs t)) (first_titles (map fst xs))"
proof (induction xs rule: rev_induct)
  case Nil
  show ?case by (simp add: first_titles_def)
next
  case (snoc x xs)
  obtain t a where x: "x = (t, a)" by (cases x)
  show ?case
  proof (cases "t \<in> fst ` set xs")
    case True
    then show ?thesis
      by (simp add: x group_all_snoc snoc.IH grouped_append_map first_titles_snoc entries_of_snoc)
  next
    case False
    then have e: "entries_of xs t = []" by (simp add: entries_of_Nil_iff)
    have "\<And>k. k \<in> set (first_titles (map fst xs)) \<Longrightarrow> k \<noteq> t" using False by auto
    then have m: "map (\<lambda>k. (k, if k = t then entries_of xs k @ [a] else entries_of xs k))
             (first_titles (map fst xs))
          = map (\<lambda>k. (k, entries_of xs k)) (first_titles (map fst xs))"
      by (intro map_cong) auto
    from False show ?thesis
      by (simp add: x group_all_snoc snoc.IH grouped_append_map first_titles_snoc
            entries_of_snoc e m)
  qed
qed

text \<open>The calls \<open>grouped[title].append(...)\<close> of a run of the parser on \<open>text\<close>.\<close>

definition parser_trace :: "ustring \<Rightarrow> error + (ustring \<times> annotation) list" where
  "parser_trace text = emitted (map rstrip (splitlines text)) 0"

lemma parse_char:
  "parse_kindle_annotations text =
     (case parser_trace text of
        Inl e \<Rightarrow> Inl e
      | Inr xs \<Rightarrow> Inr (map (\<lambda>t. (t, sort_items (entries_of xs t))) (first_titles (map fst xs))))"
  by (simp add: parse_kindle_annotations_def parser_trace_def scan_loop_emitted group_all_char
        comp_def split: sum.split)

lemma emitted_sound:
  "emitted lines i = Inr xs \<Longrightarrow> (t, a) \<in> set xs \<Longrightarrow>
   \<exists>k ts. i \<le> k \<and> int k < int (length lines) - 2 \<and> is_record lines k
     \<and> meta_timestamp (strip (lines ! (k + 1))) = Inr ts
     \<and> record_text lines k \<noteq> []
     \<and> t = normalize_title (lines ! k) \<and> a = record_entry lines k ts"
proof (induction lines i arbitrary: xs rule: emitted.induct)
  case (1 lines i)
  show ?case
  proof (cases "int i < int (length lines) - 2")
    case False
    with 1(3,4) show ?thesis by (simp add: emitted.simps [of lines i])
  next
    case True
    show ?thesis
    proof (cases "is_record lines i")
      case False
      with True 1(3) have "emitted lines (i + 1) = Inr xs" by (simp add: emitted.simps [of lines i])
      from 1(1) [OF True False this 1(4)]
      obtain k ts' where "i + 1 \<le> k" and
        k: "int k < int (length lines) - 2" "is_record lines k"
          "meta_timestamp (strip (lines ! (k + 1))) = Inr ts'" "record_text lines k \<noteq> []"
          "t = normalize_title (lines ! k)" "a = record_entry lines k ts'"
        by blast
      then have "i \<le> k" by simp
      with k show ?thesis by blast
    next
      case rec: True
      then have nn: "\<not> \<not> is_record lines i" by simp
      show ?thesis
      proof (cases "meta_timestamp (strip (lines ! (i + 1)))")
        case (Inl e)
        with True rec 1(3) show ?thesis by (simp add: emitted.simps [of lines i])
      next
        case (Inr ts)
        from True rec Inr 1(3) obtain rest where
          rest: "emitted lines (record_next lines i) = Inr rest" and
          xs: "xs = (if record_text lines i \<noteq> []
                     then (normalize_title (lines ! i), record_entry lines i ts) # rest else rest)"
          by (auto simp: emitted.simps [of lines i] split: sum.splits)
        have le: "i \<le> record_next lines i"
          using body_loop_ge [of "i + 3" lines "normalize_title (lines ! i)" "[]"]
          by (simp add: record_next_def)
        show ?thesis
        proof (cases "(t, a) \<in> set rest")
          case True
          from 1(2) [OF \<open>int i < int (length lines) - 2\<close> nn Inr rest True]
          obtain k ts' where "record_next lines i \<le> k" and
            k: "int k < int (length lines) - 2" "is_record lines k"
              "meta_timestamp (strip (lines ! (k + 1))) = Inr ts'" "record_text lines k \<noteq> []"
              "t = normalize_title (lines ! k)" "a = record_entry lines k ts'"
            by blast
          with le have "i \<le> k" by simp
          with k show ?thesis by blast
        next
          case False
          with 1(4) xs have "record_text lines i \<noteq> []"
            and "t = normalize_title (lines ! i)" and "a = record_entry lines i ts"
            by (auto split: if_splits)
          with True rec Inr show ?thesis by blast
        qed
      qed
    qed
  qed
qed

section \<open>No entry has an empty text\<close>

lemma set_sort_items [simp]: "set (sort_items items) = set items"
  by (simp add: sort_items_def)

lemma kept_lines_all_noise:
  "\<forall>l \<in> set (body_run lines (i + 3)). is_noise (normalize_title (lines ! i)) (strip l) \<Longrightarrow>
   kept_lines lines i = []"
  by (simp add: kept_lines_def filter_empty_conv)

text \<open>
  Claim C6. Every entry of every list that \<open>parse_kindle_annotations\<close> returns has a
  non-empty \<open>text\<close>. At a record whose \<open>annotation_text\<close> is empty the outer loop
  appends nothing: it goes on behind the body with the dictionary unchanged, and the
  empty body raises nothing (the only exception at a record is that of the timestamp
  conversion, made before the body is read and whatever the body is). A body run of
  noise lines only gives the empty \<open>annotation_text\<close>.
\<close>

theorem emitted_text_nonempty:
  "(\<forall>result. parse_kindle_annotations text = Inr result \<longrightarrow>
      (\<forall>(t, items) \<in> set result. \<forall>a \<in> set items. text' a \<noteq> []))
   \<and> (int i < int (length lines) - 2 \<and> is_record lines i
        \<and> strip (py_join 10 (snd (body_loop lines (normalize_title (lines ! i)) (i + 3) []))) = []
       \<longrightarrow> scan_loop lines i g =
             (case meta_timestamp (strip (lines ! (i + 1))) of
                Inl e \<Rightarrow> Inl e
              | Inr ts \<Rightarrow>
                  scan_loop lines
                    (fst (body_loop lines (normalize_title (lines ! i)) (i + 3) []) + 1) g))
   \<and> ((\<forall>l \<in> set (body_run lines (i + 3)).
          strip l = SEPARATOR \<or> strip l = normalize_title (lines ! i)
          \<or> startswith (strip l) META_PREFIX)
       \<longrightarrow> strip (py_join 10 (snd (body_loop lines (normalize_title (lines ! i)) (i + 3) []))) = [])"
proof (intro conjI allI impI)
  fix result
  assume p: "parse_kindle_annotations text = Inr result"
  then obtain xs where tr: "parser_trace text = Inr xs"
    and res: "result = map (\<lambda>t. (t, sort_items (entries_of xs t))) (first_titles (map fst xs))"
    by (auto simp: parse_char split: sum.splits)
  show "\<forall>(t, items) \<in> set result. \<forall>a \<in> set items. text' a \<noteq> []"
  proof (clarify)
    fix t items a
    assume "(t, items) \<in> set result" and a: "a \<in> set items" and e: "text' a = []"
    with res have "a \<in> set (entries_of xs t)" by auto
    then have "(t, a) \<in> set xs" by (auto simp: entries_of_def)
    from emitted_sound [OF tr [unfolded parser_trace_def] this] e
    show False by (auto simp: record_entry_def)
  qed
next
  assume a: "int i < int (length lines) - 2 \<and> is_record lines i
        \<and> strip (py_join 10 (snd (body_loop lines (normalize_title (lines ! i)) (i + 3) []))) = []"
  then have "record_text lines i = []" by (simp add: record_text_def)
  with a show "scan_loop lines i g =
             (case meta_timestamp (strip (lines ! (i + 1))) of
                Inl e \<Rightarrow> Inl e
              | Inr ts \<Rightarrow>
                  scan_loop lines
                    (fst (body_loop lines (normalize_title (lines ! i)) (i + 3) []) + 1) g)"
    by (simp add: scan_loop_record record_next_def split: sum.split)
next
  assume "\<forall>l \<in> set (body_run lines (i + 3)).
          strip l = SEPARATOR \<or> strip l = normalize_title (lines ! i)
          \<or> startswith (strip l) META_PREFIX"
  then have "kept_lines lines i = []"
    by (intro kept_lines_all_noise) (simp add: is_noise_def)
  then have "record_text lines i = []" by (simp add: record_text_kept)
  then show "strip (py_join 10 (snd (body_loop lines (normalize_title (lines ! i)) (i + 3) []))) = []"
    by (simp add: record_text_def)
qed

text \<open>An export of two records; the body of the first holds its title again and the
  separator, and nothing else.\<close>

definition c6_text :: ustring where
  "c6_text = ustr ''A'' @ [10] @ ustr ''- Deine Markierung auf Seite 1'' @ [10] @ [10]
     @ ustr ''A'' @ [10] @ ustr ''=========='' @ [10] @ [10]
     @ ustr ''B'' @ [10] @ ustr ''- Deine Markierung auf Seite 2'' @ [10] @ [10]
     @ ustr ''x'' @ [10] @ ustr ''=========='' @ [10]"

lemma c6_lines:
  "map rstrip (splitlines c6_text) =
     [ustr ''A'', ustr ''- Deine Markierung auf Seite 1'', [], ustr ''A'', ustr ''=========='', [],
      ustr ''B'', ustr ''- Deine Markierung auf Seite 2'', [], ustr ''x'', ustr ''=========='']"
  by (simp add: c6_text_def splitlines_def is_linebreak_def string_eval)

theorem emitted_text_nonempty_witness:
  "parse_kindle_annotations c6_text =
     Inr [(ustr ''B'', [\<lparr>text' = ustr ''x'', page = Some (ustr ''2''), timestamp = None\<rparr>])]"
proof -
  let ?L = "[ustr ''A'', ustr ''- Deine Markierung auf Seite 1'', [], ustr ''A'',
      ustr ''=========='', [],
      ustr ''B'', ustr ''- Deine Markierung auf Seite 2'', [], ustr ''x'', ustr ''=========='']"
  have run: "body_run ?L (0 + 3) = [ustr ''A'', ustr ''=========='']"
    by (simp add: body_run_def string_eval)
  have title: "normalize_title (?L ! 0) = ustr ''A''"
    by (simp add: normalize_title_def lstrip_chars_def string_eval)
  have rec0: "is_record ?L 0"
    by (simp add: parser_eval string_eval)
  note discard = emitted_text_nonempty [of "[]" 0 ?L "[]", THEN conjunct2]
  have noise: "\<forall>l \<in> set (body_run ?L (0 + 3)).
          strip l = SEPARATOR \<or> strip l = normalize_title (?L ! 0)
          \<or> startswith (strip l) META_PREFIX"
    unfolding title run by (simp add: SEPARATOR_def string_eval)
  have empty: "strip (py_join 10 (snd (body_loop ?L (normalize_title (?L ! 0)) (0 + 3) []))) = []"
    using discard [THEN conjunct2] noise by (rule mp)
  have "scan_loop ?L 0 [] =
             (case meta_timestamp (strip (?L ! (0 + 1))) of
                Inl e \<Rightarrow> Inl e
              | Inr ts \<Rightarrow>
                  scan_loop ?L (fst (body_loop ?L (normalize_title (?L ! 0)) (0 + 3) []) + 1) [])"
    using discard [THEN conjunct1] rec0 empty by simp
  then have 1: "scan_loop ?L 0 [] = scan_loop ?L 6 []"
    unfolding body_loop_eq run
    by (simp add: meta_timestamp_def TIMESTAMP_PATTERN_def TIMESTAMP_PREFIX_def
          startswith_def string_eval)
  have rec: "is_record ?L 6"
    by (simp add: parser_eval string_eval)
  have 2: "scan_loop ?L 6 [] =
      scan_loop ?L 12 [(ustr ''B'', [\<lparr>text' = ustr ''x'', page = Some (ustr ''2''),
                                       timestamp = None\<rparr>])]"
    by (simp add: scan_loop_record [OF _ rec])
       (simp add: record_next_def record_text_def record_entry_def
          body_loop_eq body_run_def is_noise_def parser_eval string_eval)
  show ?thesis
    by (simp add: parse_kindle_annotations_def c6_lines 1 2 scan_loop_stop sort_items_def)
qed

section \<open>The order of the entries of a title\<close>

lemma emitted_stop: "\<not> int i < int (length lines) - 2 \<Longrightarrow> emitted lines i = Inr []"
  by (simp add: emitted.simps [of lines i])

lemma emitted_skip:
  "int i < int (length lines) - 2 \<Longrightarrow> \<not> is_record lines i \<Longrightarrow>
   emitted lines i = emitted lines (i + 1)"
  by (simp add: emitted.simps [of lines i])

lemma emitted_record:
  "int i < int (length lines) - 2 \<Longrightarrow> is_record lines i \<Longrightarrow>
   meta_timestamp (strip (lines ! (i + 1))) = Inr ts \<Longrightarrow>
   emitted lines (record_next lines i) = Inr rest \<Longrightarrow>
   emitted lines i =
     Inr (if record_text lines i \<noteq> []
          then (normalize_title (lines ! i), record_entry lines i ts) # rest else rest)"
  by (simp add: emitted.simps [of lines i])



lemma page_key_less [simp]:
  "Finite m < Finite n \<longleftrightarrow> m < n" "Finite m < Infinity" "\<not> Infinity < k"
  by (cases k; auto simp: less_page_key_def)+






lemmas record_eval = record_next_def record_text_def record_entry_def body_loop_eq body_run_def
  is_noise_def









section \<open>The keys of the result\<close>

lemma not_isspace_bom: "\<not> isspace 65279"
  by (simp add: isspace_def)

lemma lstrip_chars_bom:
  assumes "s = [] \<or> hd s \<noteq> 65279"
  shows "lstrip_chars [65279] (replicate n 65279 @ s) = s"
proof -
  have "dropWhile (\<lambda>c. c \<in> set [65279::nat]) (replicate n 65279 @ s)
          = dropWhile (\<lambda>c. c \<in> set [65279::nat]) s"
    by (rule dropWhile_append2) simp
  also have "\<dots> = s" using assms by (cases s) auto
  finally show ?thesis by (simp add: lstrip_chars_def)
qed

lemma strip_surrounded:
  assumes "\<forall>c \<in> set w1. isspace c" and "\<forall>c \<in> set w2. isspace c"
  shows "strip (w1 @ core @ w2) = strip core"
proof -
  have l: "lstrip (w1 @ core @ w2) = lstrip (core @ w2)"
    using assms(1) by (simp add: lstrip_def dropWhile_append2)
  have w: "dropWhile isspace w2 = []" using assms(2) by simp
  have r: "rstrip (s @ w2) = rstrip s" for s
  proof -
    have "dropWhile isspace (rev w2 @ rev s) = dropWhile isspace (rev s)"
      by (rule dropWhile_append2) (use assms(2) in simp)
    then show ?thesis by (simp add: rstrip_def)
  qed
  show ?thesis
  proof (cases "\<forall>c \<in> set core. isspace c")
    case True
    then have "lstrip (core @ w2) = []" "lstrip core = []"
      using w by (simp_all add: lstrip_def dropWhile_append)
    then show ?thesis by (simp add: strip_def l)
  next
    case False
    then have "lstrip (core @ w2) = lstrip core @ w2"
      by (auto simp: lstrip_def dropWhile_append)
    then show ?thesis by (simp add: strip_def l r)
  qed
qed

lemma normalize_title_shape:
  assumes "\<forall>c \<in> set w1. isspace c" and "\<forall>c \<in> set w2. isspace c"
    and "core = [] \<or> hd core \<noteq> 65279"
  shows "normalize_title (replicate n 65279 @ w1 @ core @ w2) = strip core"
proof -
  have "w1 @ core @ w2 = [] \<or> hd (w1 @ core @ w2) \<noteq> 65279"
  proof (cases w1)
    case (Cons c cs)
    with assms(1) not_isspace_bom show ?thesis by auto
  next
    case Nil
    show ?thesis
    proof (cases core)
      case (Cons c cs)
      with Nil assms(3) show ?thesis by simp
    next
      case n: Nil
      show ?thesis
      proof (cases w2)
        case Nil
        with n \<open>w1 = []\<close> show ?thesis by simp
      next
        case (Cons c cs)
        with assms(2) not_isspace_bom n \<open>w1 = []\<close> show ?thesis by auto
      qed
    qed
  qed
  then have "lstrip_chars [65279] (replicate n 65279 @ w1 @ core @ w2) = w1 @ core @ w2"
    by (rule lstrip_chars_bom)
  then show ?thesis
    by (simp add: normalize_title_def strip_surrounded [OF assms(1,2)])
qed

text \<open>
  Claim C10, as the code has it. The key of a record is \<open>normalize_title\<close> of its title
  line: leading \<open>U+FEFF\<close> characters are removed first, surrounding white space after
  that. So a title line made of any number of \<open>U+FEFF\<close>, then white space, then a core
  that does not begin with \<open>U+FEFF\<close>, then white space, has the stripped core as its key,
  and two such lines with one core land under one key. For every export: the keys are
  the titles of the appended entries in the order of their first appending, no key
  occurs twice, no key is empty, every appended entry is in the list of its title, and
  every title is \<open>normalize_title\<close> of a line followed by a metadata line.
\<close>

theorem title_grouping:
  assumes "parse_kindle_annotations text = Inr result"
    and "parser_trace text = Inr xs"
  shows "map fst result = first_titles (map fst xs)
       \<and> distinct (map fst result)
       \<and> (\<forall>t \<in> set (map fst result). t \<noteq> [])
       \<and> (\<forall>(t, a) \<in> set xs. \<exists>items. (t, items) \<in> set result \<and> a \<in> set items)
       \<and> (\<forall>(t, a) \<in> set xs.
             \<exists>k. int k < int (length (map rstrip (splitlines text))) - 2
               \<and> startswith (strip (map rstrip (splitlines text) ! (k + 1))) META_PREFIX
               \<and> t = normalize_title (map rstrip (splitlines text) ! k))
       \<and> (\<forall>n w1 core w2.
             (\<forall>c \<in> set w1. isspace c) \<and> (\<forall>c \<in> set w2. isspace c)
             \<and> (core = [] \<or> hd core \<noteq> 65279)
             \<longrightarrow> normalize_title (replicate n 65279 @ w1 @ core @ w2) = strip core)"
proof (intro conjI)
  from assms have res:
    "result = map (\<lambda>t. (t, sort_items (entries_of xs t))) (first_titles (map fst xs))"
    by (simp add: parse_char)
  show keys: "map fst result = first_titles (map fst xs)"
    by (simp add: res comp_def)
  show "distinct (map fst result)" by (simp add: keys)
  have sound: "\<And>t a. (t, a) \<in> set xs \<Longrightarrow>
      \<exists>k. int k < int (length (map rstrip (splitlines text))) - 2
        \<and> is_record (map rstrip (splitlines text)) k
        \<and> t = normalize_title (map rstrip (splitlines text) ! k)"
    using emitted_sound [OF assms(2) [unfolded parser_trace_def]] by blast
  show "\<forall>t \<in> set (map fst result). t \<noteq> []"
  proof
    fix t assume "t \<in> set (map fst result)"
    then obtain a where "(t, a) \<in> set xs" by (auto simp: keys)
    from sound [OF this] show "t \<noteq> []" by (auto simp: is_record_def)
  qed
  show "\<forall>(t, a) \<in> set xs. \<exists>items. (t, items) \<in> set result \<and> a \<in> set items"
  proof (clarify)
    fix t a assume ta: "(t, a) \<in> set xs"
    then have "a \<in> set (sort_items (entries_of xs t))"
      by (force simp: entries_of_def sort_items_def)
    moreover from ta have "(t, sort_items (entries_of xs t)) \<in> set result"
      by (force simp: res)
    ultimately show "\<exists>items. (t, items) \<in> set result \<and> a \<in> set items" by blast
  qed
  show "\<forall>(t, a) \<in> set xs.
             \<exists>k. int k < int (length (map rstrip (splitlines text))) - 2
               \<and> startswith (strip (map rstrip (splitlines text) ! (k + 1))) META_PREFIX
               \<and> t = normalize_title (map rstrip (splitlines text) ! k)"
  proof (clarify)
    fix t a assume "(t, a) \<in> set xs"
    from sound [OF this] show "\<exists>k. int k < int (length (map rstrip (splitlines text))) - 2
               \<and> startswith (strip (map rstrip (splitlines text) ! (k + 1))) META_PREFIX
               \<and> t = normalize_title (map rstrip (splitlines text) ! k)"
      by (auto simp: is_record_def)
  qed
  show "\<forall>n w1 core w2.
             (\<forall>c \<in> set w1. isspace c) \<and> (\<forall>c \<in> set w2. isspace c)
             \<and> (core = [] \<or> hd core \<noteq> 65279)
             \<longrightarrow> normalize_title (replicate n 65279 @ w1 @ core @ w2) = strip core"
    by (simp add: normalize_title_shape)
qed

text \<open>Two records whose title lines differ in one leading blank only: the blank comes
  before the \<open>U+FEFF\<close>, so the \<open>lstrip\<close> of \<open>U+FEFF\<close> removes nothing from the first line and
  \<open>strip()\<close> leaves the \<open>U+FEFF\<close> in the key.\<close>

definition c10_entry :: "string \<Rightarrow> annotation" where
  "c10_entry body = \<lparr>text' = ustr body, page = None, timestamp = None\<rparr>"

definition bom_text :: ustring where
  "bom_text = [32, 65279] @ ustr ''T'' @ [10] @ ustr ''- Deine Markierung'' @ [10] @ [10]
     @ ustr ''x'' @ [10] @ [10]
     @ [65279] @ ustr ''T'' @ [10] @ ustr ''- Deine Markierung'' @ [10] @ [10]
     @ ustr ''y'' @ [10] @ ustr ''=========='' @ [10]"

definition bom_lines :: "ustring list" where
  "bom_lines =
     [[32, 65279] @ ustr ''T'', ustr ''- Deine Markierung'', [], ustr ''x'', [],
      [65279] @ ustr ''T'', ustr ''- Deine Markierung'', [], ustr ''y'', ustr ''=========='']"

lemma bom_split: "map rstrip (splitlines bom_text) = bom_lines"
  by (simp add: bom_text_def bom_lines_def splitlines_def is_linebreak_def string_eval)

lemma bom_trace_5: "emitted bom_lines 5 = Inr [(ustr ''T'', c10_entry ''y'')]"
proof -
  have rec: "is_record bom_lines 5" by (simp add: bom_lines_def parser_eval string_eval)
  have ts: "meta_timestamp (strip (bom_lines ! (5 + 1))) = Inr None"
    by (simp add: bom_lines_def parser_eval string_eval)
  have nx: "record_next bom_lines 5 = 11"
    by (simp add: bom_lines_def record_eval parser_eval string_eval)
  have rest: "emitted bom_lines (record_next bom_lines 5) = Inr []"
    unfolding nx by (rule emitted_stop) (simp add: bom_lines_def)
  have "int 5 < int (length bom_lines) - 2" by (simp add: bom_lines_def)
  from emitted_record [OF this rec ts rest] show ?thesis
    by (simp add: bom_lines_def c10_entry_def record_eval parser_eval string_eval)
qed

lemma bom_trace:
  "parser_trace bom_text = Inr [([65279] @ ustr ''T'', c10_entry ''x''), (ustr ''T'', c10_entry ''y'')]"
proof -
  have rec: "is_record bom_lines 0" by (simp add: bom_lines_def parser_eval string_eval)
  have ts: "meta_timestamp (strip (bom_lines ! (0 + 1))) = Inr None"
    by (simp add: bom_lines_def parser_eval string_eval)
  have nx: "record_next bom_lines 0 = 5"
    by (simp add: bom_lines_def record_eval parser_eval string_eval)
  note rest = bom_trace_5 [folded nx]
  have "int 0 < int (length bom_lines) - 2" by (simp add: bom_lines_def)
  from emitted_record [OF this rec ts rest] show ?thesis
    unfolding parser_trace_def bom_split
    by (simp add: bom_lines_def c10_entry_def record_eval parser_eval string_eval)
qed

text \<open>The two records land under two keys, \<open>U+FEFF T\<close> and \<open>T\<close>.\<close>

theorem title_grouping_counterexample:
  "parse_kindle_annotations bom_text =
     Inr [([65279] @ ustr ''T'', [c10_entry ''x'']), (ustr ''T'', [c10_entry ''y''])]
   \<and> [65279] @ ustr ''T'' \<noteq> ustr ''T''
   \<and> lstrip ([32, 65279] @ ustr ''T'') = [65279] @ ustr ''T''"
  by (simp add: parse_char bom_trace first_titles_def entries_of_def sort_items_def
        c10_entry_def string_eval)

text \<open>Three records; the title lines of the first and the third differ in leading
  \<open>U+FEFF\<close>, a blank after them, and trailing blanks.\<close>

definition titles_text :: ustring where
  "titles_text = [65279, 65279, 32] @ ustr ''T'' @ [10] @ ustr ''- Deine Markierung'' @ [10] @ [10]
     @ ustr ''x'' @ [10] @ [10]
     @ ustr ''U'' @ [10] @ ustr ''- Deine Markierung'' @ [10] @ [10]
     @ ustr ''u'' @ [10] @ [10]
     @ ustr ''T  '' @ [10] @ ustr ''- Deine Markierung'' @ [10] @ [10]
     @ ustr ''y'' @ [10] @ ustr ''=========='' @ [10]"

definition titles_lines :: "ustring list" where
  "titles_lines =
     [[65279, 65279, 32] @ ustr ''T'', ustr ''- Deine Markierung'', [], ustr ''x'', [],
      ustr ''U'', ustr ''- Deine Markierung'', [], ustr ''u'', [],
      ustr ''T'', ustr ''- Deine Markierung'', [], ustr ''y'', ustr ''=========='']"

lemma titles_split: "map rstrip (splitlines titles_text) = titles_lines"
  by (simp add: titles_text_def titles_lines_def splitlines_def is_linebreak_def string_eval)

lemma titles_trace_10: "emitted titles_lines 10 = Inr [(ustr ''T'', c10_entry ''y'')]"
proof -
  have rec: "is_record titles_lines 10" by (simp add: titles_lines_def parser_eval string_eval)
  have ts: "meta_timestamp (strip (titles_lines ! (10 + 1))) = Inr None"
    by (simp add: titles_lines_def parser_eval string_eval)
  have nx: "record_next titles_lines 10 = 16"
    by (simp add: titles_lines_def record_eval parser_eval string_eval)
  have rest: "emitted titles_lines (record_next titles_lines 10) = Inr []"
    unfolding nx by (rule emitted_stop) (simp add: titles_lines_def)
  have "int 10 < int (length titles_lines) - 2" by (simp add: titles_lines_def)
  from emitted_record [OF this rec ts rest] show ?thesis
    by (simp add: titles_lines_def c10_entry_def record_eval parser_eval string_eval)
qed

lemma titles_trace_5:
  "emitted titles_lines 5 = Inr [(ustr ''U'', c10_entry ''u''), (ustr ''T'', c10_entry ''y'')]"
proof -
  have rec: "is_record titles_lines 5" by (simp add: titles_lines_def parser_eval string_eval)
  have ts: "meta_timestamp (strip (titles_lines ! (5 + 1))) = Inr None"
    by (simp add: titles_lines_def parser_eval string_eval)
  have nx: "record_next titles_lines 5 = 10"
    by (simp add: titles_lines_def record_eval parser_eval string_eval)
  note rest = titles_trace_10 [folded nx]
  have "int 5 < int (length titles_lines) - 2" by (simp add: titles_lines_def)
  from emitted_record [OF this rec ts rest] show ?thesis
    by (simp add: titles_lines_def c10_entry_def record_eval parser_eval string_eval)
qed

lemma titles_trace:
  "parser_trace titles_text =
     Inr [(ustr ''T'', c10_entry ''x''), (ustr ''U'', c10_entry ''u''), (ustr ''T'', c10_entry ''y'')]"
proof -
  have rec: "is_record titles_lines 0" by (simp add: titles_lines_def parser_eval string_eval)
  have ts: "meta_timestamp (strip (titles_lines ! (0 + 1))) = Inr None"
    by (simp add: titles_lines_def parser_eval string_eval)
  have nx: "record_next titles_lines 0 = 5"
    by (simp add: titles_lines_def record_eval parser_eval string_eval)
  note rest = titles_trace_5 [folded nx]
  have "int 0 < int (length titles_lines) - 2" by (simp add: titles_lines_def)
  from emitted_record [OF this rec ts rest] show ?thesis
    unfolding parser_trace_def titles_split
    by (simp add: titles_lines_def c10_entry_def record_eval parser_eval string_eval)
qed

lemma titles_parse:
  "parse_kindle_annotations titles_text =
     Inr [(ustr ''T'', [c10_entry ''x'', c10_entry ''y'']), (ustr ''U'', [c10_entry ''u''])]"
  by (simp add: parse_char titles_trace first_titles_def entries_of_def sort_items_def
        c10_entry_def page_sort_key_def string_eval)

theorem title_grouping_witness:
  "parse_kindle_annotations titles_text =
     Inr [(ustr ''T'', [c10_entry ''x'', c10_entry ''y'']), (ustr ''U'', [c10_entry ''u''])]
   \<and> first_titles [ustr ''T'', ustr ''U'', ustr ''T''] = [ustr ''T'', ustr ''U'']
   \<and> normalize_title (replicate 2 65279 @ [32] @ ustr ''T'' @ [32, 32]) = ustr ''T''"
proof -
  note th = title_grouping [OF titles_parse titles_trace]
  have keys: "first_titles [ustr ''T'', ustr ''U'', ustr ''T''] = [ustr ''T'', ustr ''U'']"
    using th [THEN conjunct1] by simp
  note shape = th [THEN conjunct2, THEN conjunct2, THEN conjunct2, THEN conjunct2,
      THEN conjunct2, rule_format, of "[32]" "[32, 32]" "ustr ''T''" 2]
  have "normalize_title (replicate 2 65279 @ [32] @ ustr ''T'' @ [32, 32]) = strip (ustr ''T'')"
    by (rule shape) (simp add: isspace_def ustr_def)
  then have "normalize_title (replicate 2 65279 @ [32] @ ustr ''T'' @ [32, 32]) = ustr ''T''"
    by (simp add: string_eval)
  with keys titles_parse show ?thesis by simp
qed

end
